theory Spec2Isabelle
  imports Complex_Main "HOL-Library.Word"
begin

section \<open>The PCM playback pipeline of RealtimeVoiceChatMP3.tsx\<close>

text \<open>
  The component keeps three refs that matter for playback: \<open>audioCtxRef\<close>,
  \<open>queueRef\<close> and \<open>isPlayingRef\<close>. The \<open>audioChunk\<close> socket handler decodes a
  base64 PCM16 payload into a \<open>Float32Array\<close>, pushes it on the queue and calls
  \<open>playNextChunk\<close>, an async function that drains the queue, one buffer per
  \<open>setTimeout\<close> period.

  JavaScript runs each handler and each continuation of an async function to its next
  \<open>await\<close> without interruption, so the model has one atomic step per handler call and
  per timer expiry.
\<close>

subsection \<open>Data\<close>

type_synonym byte = "8 word"
type_synonym int16 = "16 word"

text \<open>
  A \<open>Float32Array\<close> as the list of its elements. Every element the decoder stores is
  \<open>k / 32768\<close> for a 16-bit integer \<open>k\<close>, which binary32 represents exactly, so the
  elements are modelled by their exact values.
\<close>

type_synonym Float32Array = "real list"

text \<open>An \<open>AudioContext\<close> is represented by the sample rate it was created with.\<close>

type_synonym AudioContext = nat

definition SAMPLE_RATE :: nat where
  "SAMPLE_RATE = 24000"

datatype error = InvalidCharacterError | RangeError | NotSupportedError

subsection \<open>\<open>atob\<close>\<close>

text \<open>
  \<open>atob\<close> is the browser's function, not code of this repository. It is modelled after
  the forgiving-base64 decode of the HTML standard: ASCII whitespace is removed; if the
  length is then a multiple of four, one or two trailing \<open>=\<close> are removed; a length
  of 1 modulo 4 or a character outside the base64 alphabet raises
  \<open>InvalidCharacterError\<close>; otherwise each character contributes six bits and the
  bits left over at the end (four after two characters, two after three) are discarded.
  The result is a string of characters with codes 0..255; the model returns these codes,
  which is what the handler's \<open>charCodeAt\<close> loop writes into its \<open>Uint8Array\<close>.
  The payload is a string of 8-bit characters here; a character with a larger code is
  outside the alphabet, as the other characters that the alphabet does not have.
\<close>

definition is_ascii_whitespace :: "char \<Rightarrow> bool" where
  "is_ascii_whitespace c \<longleftrightarrow> (of_char c :: nat) \<in> {9, 10, 12, 13, 32}"

definition sextet :: "char \<Rightarrow> nat option" where
  "sextet c =
     (let n = (of_char c :: nat) in
      if 65 \<le> n \<and> n \<le> 90 then Some (n - 65)
      else if 97 \<le> n \<and> n \<le> 122 then Some (n - 71)
      else if 48 \<le> n \<and> n \<le> 57 then Some (n + 4)
      else if n = 43 then Some 62
      else if n = 47 then Some 63
      else None)"

definition strip_padding :: "string \<Rightarrow> string" where
  "strip_padding d =
     (if length d mod 4 = 0 then
        (if 2 \<le> length d \<and> drop (length d - 2) d = ''=='' then take (length d - 2) d
         else if 1 \<le> length d \<and> drop (length d - 1) d = ''='' then take (length d - 1) d
         else d)
      else d)"

fun bytes_of_sextets :: "nat list \<Rightarrow> byte list" where
  "bytes_of_sextets (a # b # c # d # r) =
     (let n = ((a * 64 + b) * 64 + c) * 64 + d
      in of_nat (n div 65536) # of_nat (n div 256) # of_nat n # bytes_of_sextets r)"
| "bytes_of_sextets [a, b, c] =
     (let n = (a * 64 + b) * 64 + c in [of_nat (n div 1024), of_nat (n div 4)])"
| "bytes_of_sextets [a, b] = [of_nat ((a * 64 + b) div 16)]"
| "bytes_of_sextets _ = []"

definition atob :: "string \<Rightarrow> error + byte list" where
  "atob data =
     (let d = strip_padding (filter (\<lambda>c. \<not> is_ascii_whitespace c) data) in
      if length d mod 4 = 1 then Inl InvalidCharacterError
      else case those (map sextet d) of
             None \<Rightarrow> Inl InvalidCharacterError
           | Some v \<Rightarrow> Inr (bytes_of_sextets v))"

subsection \<open>The decoding part of the \<open>audioChunk\<close> handler (lines 104 to 111)\<close>

text \<open>
  \<open>new Int16Array(buffer)\<close> on the bytes just written: element \<open>i\<close> is made of bytes
  \<open>2i\<close> (low) and \<open>2i + 1\<close> (high), the byte order of every platform the component
  runs on. The constructor raises \<open>RangeError\<close> when the byte length is odd; that
  check is in \<open>decode_pcm16\<close>, so the view is only taken of an even number of bytes.
\<close>

fun Int16Array :: "byte list \<Rightarrow> int16 list" where
  "Int16Array (lo # hi # r) = word_cat hi lo # Int16Array r"
| "Int16Array _ = []"

text \<open>\<open>pcm[i] / 32768\<close>, stored into the \<open>Float32Array\<close>.\<close>

definition to_float32 :: "int16 \<Rightarrow> real" where
  "to_float32 s = real_of_int (sint s) / 32768"

definition decode_pcm16 :: "string \<Rightarrow> error + Float32Array" where
  "decode_pcm16 audio =
     (case atob audio of
        Inl e \<Rightarrow> Inl e
      | Inr binary \<Rightarrow>
          if odd (length binary) then Inl RangeError
          else Inr (map to_float32 (Int16Array binary)))"

text \<open>
  The reading the specification gives of two consecutive bytes: a signed 16-bit integer,
  low byte first. It is stated on integers, independently of \<open>Int16Array\<close> above, and
  compared with it in \<open>sint_word_cat_bytes\<close>.
\<close>

definition s16le :: "byte \<Rightarrow> byte \<Rightarrow> int" where
  "s16le lo hi = (let u = uint lo + 256 * uint hi in if u < 32768 then u else u - 65536)"

subsection \<open>The player state\<close>

text \<open>
  The refs of the component, and two things the browser holds: the pending
  \<open>setTimeout\<close> callbacks of suspended \<open>playNextChunk\<close> calls (each entry is one
  suspended drain loop, recorded by the frame count of the buffer whose duration it waits
  for), and the buffers that \<open>source.start()\<close> was called on, oldest first.
\<close>

record player =
  audioCtx :: "AudioContext option"
  queue :: "Float32Array list"
  isPlaying :: bool
  timers :: "nat list"
  started :: "Float32Array list"

text \<open>The refs as \<open>useRef\<close> initialises them, and the effect that creates the context.\<close>

definition initial :: player where
  "initial = \<lparr>audioCtx = None, queue = [], isPlaying = False, timers = [], started = []\<rparr>"

definition mount :: "player \<Rightarrow> player" where
  "mount s = s\<lparr>audioCtx := Some SAMPLE_RATE\<rparr>"

text \<open>
  The Web Audio calls of one loop iteration (\<open>createBuffer\<close>, \<open>copyToChannel\<close>,
  \<open>createBufferSource\<close>, \<open>connect\<close>, \<open>start\<close>) belong to the browser. The model
  takes their outcome as a parameter: \<open>None\<close> when the buffer is accepted and started,
  \<open>Some e\<close> when one of the calls raises \<open>e\<close>.
\<close>

type_synonym AudioOutputDevice = "Float32Array \<Rightarrow> error option"

text \<open>
  A device that behaves as the Web Audio specification says for these calls:
  \<open>createBuffer(1, 0, rate)\<close> raises \<open>NotSupportedError\<close>, since a buffer has at least
  one frame; any other chunk is accepted.
\<close>

definition webaudio :: AudioOutputDevice where
  "webaudio chunk = (if length chunk = 0 then Some NotSupportedError else None)"


text \<open>The state of the promise an async call returns, when the call gives control back.\<close>

datatype promise = Fulfilled | Rejected error | Pending

subsection \<open>\<open>playNextChunk\<close>\<close>

text \<open>
  The loop of lines 29 to 44, from its head to the next \<open>await\<close>: one call of
  \<open>drain\<close> is what runs when \<open>playNextChunk\<close> enters the loop, and again each time
  the timer of line 41 expires. The queue only holds \<open>Float32Array\<close> objects, which are
  truthy, so after \<open>shift()\<close> on a non-empty queue the \<open>continue\<close> of line 31 is never
  taken. An exception of the Web Audio calls leaves the async function at once: the
  promise is rejected and line 44 is not reached.
\<close>

definition drain :: "AudioOutputDevice \<Rightarrow> player \<Rightarrow> player \<times> promise" where
  "drain submit s =
     (case queue s of
        [] \<Rightarrow> (s\<lparr>isPlaying := False\<rparr>, Fulfilled)
      | chunk # rest \<Rightarrow>
          (case submit chunk of
             Some e \<Rightarrow> (s\<lparr>queue := rest\<rparr>, Rejected e)
           | None \<Rightarrow>
               (s\<lparr>queue := rest,
                  started := started s @ [chunk],
                  timers := timers s @ [length chunk]\<rparr>, Pending)))"

definition playNextChunk :: "AudioOutputDevice \<Rightarrow> player \<Rightarrow> player \<times> promise" where
  "playNextChunk submit s =
     (if isPlaying s then (s, Fulfilled)
      else if audioCtx s = None \<or> queue s = [] then (s, Fulfilled)
      else drain submit (s\<lparr>isPlaying := True\<rparr>))"

subsection \<open>The \<open>audioChunk\<close> handler\<close>

text \<open>
  The event carries \<open>audio\<close> and \<open>format\<close> (and \<open>sampleRate\<close>, which the handler
  does not read). An exception of \<open>atob\<close> or of the \<open>Int16Array\<close> constructor leaves
  the handler before anything is written. The promise of \<open>playNextChunk\<close> is dropped,
  so a rejection does not reach the handler.
\<close>

definition audioChunk :: "AudioOutputDevice \<Rightarrow> player \<Rightarrow> string \<times> string \<Rightarrow> error + player" where
  "audioChunk submit s ev =
     (case ev of (audio, format) \<Rightarrow>
        if format \<noteq> ''pcm16'' then Inr s
        else case decode_pcm16 audio of
               Inl e \<Rightarrow> Inl e
             | Inr float32 \<Rightarrow>
                 Inr (fst (playNextChunk submit (s\<lparr>queue := queue s @ [float32]\<rparr>))))"

subsection \<open>Runs\<close>

text \<open>
  What can happen to the player, one atomic step each: an \<open>audioChunk\<close> event arrives
  (a handler that raises leaves the state as it was), \<open>playNextChunk\<close> is called on its
  own, the timer of the \<open>i\<close>-th suspended loop expires and that loop continues from the
  loop head, or the effect's cleanup runs, which is \<open>socket.disconnect()\<close> and touches
  none of the refs.
\<close>

datatype event = AudioChunk string string | Wake | TimerFired nat | Teardown

fun step :: "AudioOutputDevice \<Rightarrow> player \<Rightarrow> event \<Rightarrow> player" where
  "step submit s (AudioChunk audio format) =
     (case audioChunk submit s (audio, format) of Inl e \<Rightarrow> s | Inr s' \<Rightarrow> s')"
| "step submit s Wake = fst (playNextChunk submit s)"
| "step submit s (TimerFired i) =
     (if i < length (timers s)
      then fst (drain submit (s\<lparr>timers := take i (timers s) @ drop (Suc i) (timers s)\<rparr>))
      else s)"
| "step submit s Teardown = s"

definition run :: "AudioOutputDevice \<Rightarrow> player \<Rightarrow> event list \<Rightarrow> player" where
  "run submit s evs = foldl (step submit) s evs"

text \<open>The fragments that a sequence of events appends to the queue, in arrival order.\<close>

fun fragments :: "event list \<Rightarrow> Float32Array list" where
  "fragments [] = []"
| "fragments (AudioChunk audio format # evs) =
     (if format = ''pcm16''
      then (case decode_pcm16 audio of Inl e \<Rightarrow> [] | Inr float32 \<Rightarrow> [float32])
      else []) @ fragments evs"
| "fragments (e # evs) = fragments evs"

section \<open>The decoder\<close>

lemma uint_word_cat_bytes:
  "uint (word_cat hi lo :: int16) = uint (lo::byte) + 256 * uint (hi::byte)"
proof -
  have lo: "0 \<le> uint lo" "uint lo < 256" using uint_lt2p [of lo] by simp_all
  have hi: "0 \<le> uint hi" "uint hi < 256" using uint_lt2p [of hi] by simp_all
  have "uint (word_cat hi lo :: int16) = (uint lo + 256 * uint hi) mod 65536"
    by (simp add: word_cat_eq uint_word_ariths unsigned_ucast_eq take_bit_eq_mod mod_simps ac_simps)
  also have "\<dots> = uint lo + 256 * uint hi"
    using lo hi by simp
  finally show ?thesis .
qed

lemma signed_take_bit_15:
  assumes "0 \<le> u" "u < 65536"
  shows "signed_take_bit 15 (u::int) = (if u < 32768 then u else u - 65536)"
proof (cases "u < 32768")
  case True
  with assms show ?thesis by (simp add: signed_take_bit_int_eq_self)
next
  case False
  have e: "u + 32768 = (u - 32768) + 65536" by arith
  have "(u + 32768) mod 65536 = (u - 32768) mod 65536"
    by (subst e) (rule mod_add_self2)
  also have "\<dots> = u - 32768" using False assms by simp
  finally show ?thesis
    using False by (simp add: signed_take_bit_eq_take_bit_shift take_bit_eq_mod)
qed

lemma sint_word_cat_bytes: "sint (word_cat hi lo :: int16) = s16le lo hi"
proof -
  have "0 \<le> uint lo + 256 * uint hi" "uint lo + 256 * uint hi < 65536"
    using uint_lt2p [of lo] uint_lt2p [of hi] by simp_all
  then show ?thesis
    by (simp add: sint_uint uint_word_cat_bytes s16le_def Let_def signed_take_bit_15)
qed

lemma length_Int16Array: "length (Int16Array bs) = length bs div 2"
  by (induction bs rule: Int16Array.induct) simp_all

lemma nth_Int16Array:
  "i < length bs div 2 \<Longrightarrow> Int16Array bs ! i = word_cat (bs ! (2 * i + 1)) (bs ! (2 * i))"
proof (induction bs arbitrary: i rule: Int16Array.induct)
  case (1 lo hi r)
  then show ?case by (cases i) simp_all
qed simp_all

lemma to_float32_range: "- 1 \<le> to_float32 s \<and> to_float32 s < 1"
proof -
  have "real_of_int (- 32768) \<le> real_of_int (sint s)"
    using sint_ge [of s] by (subst of_int_le_iff) simp
  moreover have "real_of_int (sint s) < real_of_int 32768"
    using sint_lt [of s] by (subst of_int_less_iff) simp
  ultimately show ?thesis by (simp add: to_float32_def)
qed

lemma to_float32_of_int:
  "- 32768 \<le> k \<Longrightarrow> k \<le> 32767 \<Longrightarrow> to_float32 (word_of_int k) = real_of_int k / 32768"
  by (simp add: to_float32_def signed_of_int signed_take_bit_int_eq_self)


lemmas decode_eval =
  decode_pcm16_def atob_def strip_padding_def is_ascii_whitespace_def sextet_def
  to_float32_def word_cat_eq

text \<open>
  Claim C3. When the payload decodes to an even number of bytes, the decoder returns
  one sample per two bytes; sample \<open>i\<close> is the signed 16-bit little-endian integer made
  of bytes \<open>2i\<close> and \<open>2i + 1\<close>, divided by 32768; every sample lies in \<open>[-1, 1)\<close>;
  and -32768, 0 and 32767 map to -1, 0 and 32767/32768. The decoder is a function of the
  payload alone and returns a fresh value, so it is deterministic and leaves its input
  as it was.
\<close>

theorem decode_pcm16_correct:
  assumes "atob audio = Inr bytes" and "even (length bytes)"
  shows "\<exists>samples. decode_pcm16 audio = Inr samples
           \<and> length samples = length bytes div 2
           \<and> (\<forall>i < length samples.
                 samples ! i = real_of_int (s16le (bytes ! (2 * i)) (bytes ! (2 * i + 1))) / 32768)
           \<and> (\<forall>x \<in> set samples. - 1 \<le> x \<and> x < 1)
           \<and> to_float32 (word_of_int (- 32768)) = - 1
           \<and> to_float32 (word_of_int 0) = 0
           \<and> to_float32 (word_of_int 32767) = 32767 / 32768"
proof -
  let ?samples = "map to_float32 (Int16Array bytes)"
  have d: "decode_pcm16 audio = Inr ?samples"
    using assms by (simp add: decode_pcm16_def)
  have l: "length ?samples = length bytes div 2"
    by (simp add: length_Int16Array)
  have n: "?samples ! i = real_of_int (s16le (bytes ! (2 * i)) (bytes ! (2 * i + 1))) / 32768"
    if "i < length ?samples" for i
  proof -
    from that have i: "i < length bytes div 2" by (simp add: length_Int16Array)
    then have "?samples ! i = to_float32 (word_cat (bytes ! (2 * i + 1)) (bytes ! (2 * i)))"
      by (simp add: length_Int16Array nth_Int16Array)
    then show ?thesis
      by (simp only: to_float32_def sint_word_cat_bytes)
  qed
  have r: "\<forall>x \<in> set ?samples. - 1 \<le> x \<and> x < 1"
    using to_float32_range by auto
  have b1: "to_float32 (word_of_int (- 32768)) = - 1"
    by (subst to_float32_of_int) simp_all
  have b2: "to_float32 (word_of_int 0) = 0"
    by (subst to_float32_of_int) simp_all
  have b3: "to_float32 (word_of_int 32767) = 32767 / 32768"
    by (subst to_float32_of_int) simp_all
  from d l n r b1 b2 b3 show ?thesis by blast
qed

text \<open>
  The payload \<open>AID/fwAA\<close> is the six bytes 00 80 FF 7F 00 00, that is the integers
  -32768, 32767 and 0.
\<close>

theorem decode_pcm16_correct_witness:
  "atob ''AID/fwAA'' = Inr [0, 128, 255, 127, 0, 0]
   \<and> even (length [0, 128, 255, 127, 0, 0 :: byte])
   \<and> decode_pcm16 ''AID/fwAA'' = Inr [- 1, 32767 / 32768, 0]
   \<and> s16le 0 128 = - 32768 \<and> s16le 255 127 = 32767"
proof -
  have a: "atob ''AID/fwAA'' = Inr [0, 128, 255, 127, 0, 0]"
    by (simp add: decode_eval)
  have e: "even (length [0, 128, 255, 127, 0, 0 :: byte])"
    by simp
  from decode_pcm16_correct [OF a e] obtain samples
    where "decode_pcm16 ''AID/fwAA'' = Inr samples"
      and "length samples = length [0, 128, 255, 127, 0, 0 :: byte] div 2"
    by blast
  moreover have "decode_pcm16 ''AID/fwAA'' = Inr [- 1, 32767 / 32768, 0]"
    by (simp add: decode_eval)
  moreover have "s16le 0 128 = - 32768" "s16le 255 127 = 32767"
    by (simp_all add: s16le_def)
  ultimately show ?thesis using a e by simp
qed

section \<open>The drain loop and runs\<close>

lemma drain_Nil: "queue s = [] \<Longrightarrow> drain submit s = (s\<lparr>isPlaying := False\<rparr>, Fulfilled)"
  by (simp add: drain_def)

lemma drain_accept:
  "queue s = c # r \<Longrightarrow> submit c = None \<Longrightarrow>
   drain submit s = (s\<lparr>queue := r, started := started s @ [c], timers := timers s @ [length c]\<rparr>, Pending)"
  by (simp add: drain_def)

lemma drain_reject:
  "queue s = c # r \<Longrightarrow> submit c = Some e \<Longrightarrow> drain submit s = (s\<lparr>queue := r\<rparr>, Rejected e)"
  by (simp add: drain_def)

lemma drain_fifo:
  "\<exists>k. queue s = k @ queue (fst (drain submit s))
     \<and> started (fst (drain submit s)) = started s @ filter (\<lambda>c. submit c = None) k"
proof (cases "queue s")
  case Nil
  then show ?thesis by (simp add: drain_Nil)
next
  case (Cons c r)
  show ?thesis
  proof (cases "submit c")
    case None
    with Cons have "queue s = [c] @ queue (fst (drain submit s))
      \<and> started (fst (drain submit s)) = started s @ filter (\<lambda>c. submit c = None) [c]"
      by (simp add: drain_accept)
    then show ?thesis by blast
  next
    case (Some e)
    with Cons have "queue s = [c] @ queue (fst (drain submit s))
      \<and> started (fst (drain submit s)) = started s @ filter (\<lambda>c. submit c = None) [c]"
      by (simp add: drain_reject)
    then show ?thesis by blast
  qed
qed

lemma playNextChunk_fifo:
  "\<exists>k. queue s = k @ queue (fst (playNextChunk submit s))
     \<and> started (fst (playNextChunk submit s)) = started s @ filter (\<lambda>c. submit c = None) k"
proof (cases "isPlaying s \<or> audioCtx s = None \<or> queue s = []")
  case True
  then have "fst (playNextChunk submit s) = s" by (auto simp: playNextChunk_def)
  then show ?thesis by simp
next
  case False
  then have "fst (playNextChunk submit s) = fst (drain submit (s\<lparr>isPlaying := True\<rparr>))"
    by (auto simp: playNextChunk_def)
  with drain_fifo [of "s\<lparr>isPlaying := True\<rparr>" submit] show ?thesis by simp
qed

lemma step_fifo:
  "\<exists>k. queue s @ fragments [e] = k @ queue (step submit s e)
     \<and> started (step submit s e) = started s @ filter (\<lambda>c. submit c = None) k"
proof (cases e)
  case (AudioChunk audio format)
  show ?thesis
  proof (cases "format = ''pcm16''")
    case False
    with AudioChunk show ?thesis by (simp add: audioChunk_def)
  next
    case True
    show ?thesis
    proof (cases "decode_pcm16 audio")
      case (Inl err)
      with AudioChunk True show ?thesis by (simp add: audioChunk_def)
    next
      case (Inr float32)
      with AudioChunk True have
        "step submit s e = fst (playNextChunk submit (s\<lparr>queue := queue s @ [float32]\<rparr>))"
        "fragments [e] = [float32]"
        by (simp_all add: audioChunk_def)
      with playNextChunk_fifo [of "s\<lparr>queue := queue s @ [float32]\<rparr>" submit]
      show ?thesis by simp
    qed
  qed
next
  case Wake
  with playNextChunk_fifo [of s submit] show ?thesis by simp
next
  case (TimerFired i)
  show ?thesis
  proof (cases "i < length (timers s)")
    case True
    with TimerFired
      drain_fifo [of "s\<lparr>timers := take i (timers s) @ drop (Suc i) (timers s)\<rparr>" submit]
    show ?thesis by simp
  next
    case False
    with TimerFired show ?thesis by simp
  qed
next
  case Teardown
  then show ?thesis by simp
qed

lemma fragments_append: "fragments (xs @ ys) = fragments xs @ fragments ys"
  by (induction xs rule: fragments.induct) simp_all

lemma run_Nil: "run submit s [] = s"
  by (simp add: run_def)

lemma run_snoc: "run submit s (evs @ [e]) = step submit (run submit s evs) e"
  by (simp add: run_def)

lemma run_Cons: "run submit s (e # evs) = run submit (step submit s e) evs"
  by (simp add: run_def)

lemma run_append: "run submit s (xs @ ys) = run submit (run submit s xs) ys"
  by (simp add: run_def)

lemma run_fifo:
  "\<exists>pre. queue s @ fragments evs = pre @ queue (run submit s evs)
     \<and> started (run submit s evs) = started s @ filter (\<lambda>c. submit c = None) pre"
proof (induction evs rule: rev_induct)
  case Nil
  show ?case by (simp add: run_Nil)
next
  case (snoc e evs)
  then obtain pre where pre: "queue s @ fragments evs = pre @ queue (run submit s evs)"
    "started (run submit s evs) = started s @ filter (\<lambda>c. submit c = None) pre"
    by blast
  from step_fifo [of "run submit s evs" e submit] obtain k where
    k: "queue (run submit s evs) @ fragments [e] = k @ queue (run submit s (evs @ [e]))"
    "started (run submit s (evs @ [e])) = started (run submit s evs) @ filter (\<lambda>c. submit c = None) k"
    by (auto simp: run_snoc)
  have "queue s @ fragments (evs @ [e]) = (pre @ k) @ queue (run submit s (evs @ [e]))"
    using pre(1) k(1) by (simp add: fragments_append) (metis append_assoc)
  moreover have "started (run submit s (evs @ [e])) = started s @ filter (\<lambda>c. submit c = None) (pre @ k)"
    using pre(2) k(2) by simp
  ultimately show ?case by blast
qed

lemma playNextChunk_playing: "isPlaying s \<Longrightarrow> playNextChunk submit s = (s, Fulfilled)"
  by (simp add: playNextChunk_def)

lemma drain_single:
  assumes "timers s = []" and "isPlaying s"
  shows "length (timers (fst (drain submit s))) \<le> 1
       \<and> (timers (fst (drain submit s)) \<noteq> [] \<longrightarrow> isPlaying (fst (drain submit s)))"
  using assms by (simp add: drain_def split: list.split option.split)

lemma playNextChunk_single:
  assumes "length (timers s) \<le> 1" and "timers s \<noteq> [] \<longrightarrow> isPlaying s"
  shows "length (timers (fst (playNextChunk submit s))) \<le> 1
       \<and> (timers (fst (playNextChunk submit s)) \<noteq> [] \<longrightarrow> isPlaying (fst (playNextChunk submit s)))"
proof (cases "isPlaying s \<or> audioCtx s = None \<or> queue s = []")
  case True
  then have "fst (playNextChunk submit s) = s" by (auto simp: playNextChunk_def)
  with assms show ?thesis by simp
next
  case False
  then have e: "fst (playNextChunk submit s) = fst (drain submit (s\<lparr>isPlaying := True\<rparr>))"
    by (auto simp: playNextChunk_def)
  from False assms have "timers (s\<lparr>isPlaying := True\<rparr>) = []" by auto
  from drain_single [OF this, of submit] show ?thesis by (simp add: e)
qed

lemma step_single:
  assumes "length (timers s) \<le> 1" and "timers s \<noteq> [] \<longrightarrow> isPlaying s"
  shows "length (timers (step submit s e)) \<le> 1
       \<and> (timers (step submit s e) \<noteq> [] \<longrightarrow> isPlaying (step submit s e))"
proof (cases e)
  case (AudioChunk audio format)
  show ?thesis
  proof (cases "audioChunk submit s (audio, format)")
    case (Inl err)
    with AudioChunk assms show ?thesis by simp
  next
    case (Inr s')
    then have "s' = s \<or> (\<exists>c. s' = fst (playNextChunk submit (s\<lparr>queue := queue s @ [c]\<rparr>)))"
      by (auto simp: audioChunk_def split: if_splits sum.splits)
    then show ?thesis
    proof
      assume "s' = s"
      with AudioChunk Inr assms show ?thesis by simp
    next
      assume "\<exists>c. s' = fst (playNextChunk submit (s\<lparr>queue := queue s @ [c]\<rparr>))"
      then obtain c where c: "s' = fst (playNextChunk submit (s\<lparr>queue := queue s @ [c]\<rparr>))" ..
      from assms playNextChunk_single [of "s\<lparr>queue := queue s @ [c]\<rparr>" submit]
      show ?thesis by (simp add: AudioChunk Inr c)
    qed
  qed
next
  case Wake
  with playNextChunk_single [OF assms, of submit] show ?thesis by simp
next
  case (TimerFired i)
  show ?thesis
  proof (cases "i < length (timers s)")
    case True
    with assms have t: "take i (timers s) @ drop (Suc i) (timers s) = []" and p: "isPlaying s"
      by auto
    from drain_single [of "s\<lparr>timers := []\<rparr>" submit] p
    show ?thesis by (simp add: TimerFired True t)
  next
    case False
    with TimerFired assms show ?thesis by simp
  qed
next
  case Teardown
  with assms show ?thesis by simp
qed

lemma run_single:
  assumes "length (timers s) \<le> 1" and "timers s \<noteq> [] \<longrightarrow> isPlaying s"
  shows "length (timers (run submit s evs)) \<le> 1
       \<and> (timers (run submit s evs) \<noteq> [] \<longrightarrow> isPlaying (run submit s evs))"
proof (induction evs rule: rev_induct)
  case Nil
  from assms show ?case by (simp add: run_Nil)
next
  case (snoc e evs)
  then show ?case
    using step_single [of "run submit s evs" submit e] by (simp add: run_snoc)
qed

lemma step_stuck:
  assumes "isPlaying s" and "timers s = []"
  shows "step submit s e = s\<lparr>queue := queue s @ fragments [e]\<rparr>"
proof (cases e)
  case (AudioChunk audio format)
  with assms show ?thesis
    by (auto simp: audioChunk_def playNextChunk_def split: sum.splits)
qed (use assms in \<open>simp_all add: playNextChunk_def\<close>)

lemma run_stuck:
  assumes "isPlaying s" and "timers s = []"
  shows "run submit s evs = s\<lparr>queue := queue s @ fragments evs\<rparr>"
proof (induction evs rule: rev_induct)
  case Nil
  show ?case by (simp add: run_Nil)
next
  case (snoc e evs)
  have "step submit (s\<lparr>queue := queue s @ fragments evs\<rparr>) e
        = s\<lparr>queue := queue s @ fragments evs @ fragments [e]\<rparr>"
    using assms by (simp add: step_stuck)
  with snoc show ?case by (simp add: run_snoc fragments_append)
qed

lemma run_timers_idle: "timers s = [] \<Longrightarrow> run submit s (replicate n (TimerFired i)) = s"
  by (induction n) (simp_all add: run_Nil run_Cons)

lemma step_timer_accept:
  assumes "timers s = [d]" and "queue s = c # r" and "submit c = None"
  shows "step submit s (TimerFired 0)
         = s\<lparr>timers := [length c], queue := r, started := started s @ [c]\<rparr>"
  using assms by (simp add: drain_def)

lemma step_timer_empty:
  assumes "timers s = [d]" and "queue s = []"
  shows "step submit s (TimerFired 0) = s\<lparr>timers := [], isPlaying := False\<rparr>"
  using assms by (simp add: drain_def)

lemma drain_all:
  assumes "timers s = [d]" and "\<forall>c \<in> set (queue s). submit c = None" and "length (queue s) \<le> n"
  shows "started (run submit s (replicate n (TimerFired 0))) = started s @ queue s
       \<and> queue (run submit s (replicate n (TimerFired 0))) = []
       \<and> (length (queue s) < n \<longrightarrow>
            \<not> isPlaying (run submit s (replicate n (TimerFired 0)))
            \<and> timers (run submit s (replicate n (TimerFired 0))) = [])"
  using assms
proof (induction n arbitrary: s d)
  case 0
  then show ?case by (simp add: run_Nil)
next
  case (Suc n)
  show ?case
  proof (cases "queue s")
    case Nil
    from Suc.prems(1) Nil
    have "step submit s (TimerFired 0) = s\<lparr>timers := [], isPlaying := False\<rparr>"
      by (rule step_timer_empty)
    then have "run submit s (replicate (Suc n) (TimerFired 0)) = s\<lparr>timers := [], isPlaying := False\<rparr>"
      by (simp add: run_Cons run_timers_idle)
    with Nil show ?thesis by simp
  next
    case (Cons c r)
    let ?s1 = "s\<lparr>timers := [length c], queue := r, started := started s @ [c]\<rparr>"
    from Suc.prems(2) Cons have "submit c = None" by simp
    with Suc.prems(1) Cons have "step submit s (TimerFired 0) = ?s1"
      by (rule step_timer_accept)
    then have r: "run submit s (replicate (Suc n) (TimerFired 0)) = run submit ?s1 (replicate n (TimerFired 0))"
      by (simp add: run_Cons)
    have "timers ?s1 = [length c]" "\<forall>c \<in> set (queue ?s1). submit c = None" "length (queue ?s1) \<le> n"
      using Cons Suc.prems by simp_all
    from Suc.IH [OF this] show ?thesis
      using Cons r by simp
  qed
qed

lemma step_playing:
  assumes "isPlaying s" and "\<forall>i. e \<noteq> TimerFired i"
  shows "step submit s e = s\<lparr>queue := queue s @ fragments [e]\<rparr>"
proof (cases e)
  case (AudioChunk audio format)
  with assms show ?thesis
    by (auto simp: audioChunk_def playNextChunk_def split: sum.splits)
qed (use assms in \<open>simp_all add: playNextChunk_def\<close>)

lemma run_playing:
  assumes "isPlaying s" and "\<forall>e \<in> set evs. \<forall>i. e \<noteq> TimerFired i"
  shows "run submit s evs = s\<lparr>queue := queue s @ fragments evs\<rparr>"
  using assms(2)
proof (induction evs rule: rev_induct)
  case Nil
  show ?case by (simp add: run_Nil)
next
  case (snoc e evs)
  then have ih: "run submit s evs = s\<lparr>queue := queue s @ fragments evs\<rparr>"
    and e: "\<forall>i. e \<noteq> TimerFired i" by simp_all
  have "step submit (s\<lparr>queue := queue s @ fragments evs\<rparr>) e
        = s\<lparr>queue := queue s @ fragments evs @ fragments [e]\<rparr>"
    using assms(1) e by (simp add: step_playing)
  with ih show ?case by (simp add: run_snoc fragments_append)
qed

lemma step_timer_reject:
  assumes "timers s = [d]" and "queue s = c # r" and "submit c = Some e"
  shows "step submit s (TimerFired 0) = s\<lparr>timers := [], queue := r\<rparr>"
  using assms by (simp add: drain_def)

lemma drain_upto:
  assumes "isPlaying s" and "timers s = [d]" and "length (queue s) \<le> n"
  shows "started (run submit s (replicate n (TimerFired 0)))
         = started s @ takeWhile (\<lambda>c. submit c = None) (queue s)"
  using assms
proof (induction n arbitrary: s d)
  case 0
  then show ?case by (simp add: run_Nil)
next
  case (Suc n)
  show ?case
  proof (cases "queue s")
    case Nil
    from Suc.prems(2) Nil
    have "step submit s (TimerFired 0) = s\<lparr>timers := [], isPlaying := False\<rparr>"
      by (rule step_timer_empty)
    then have "run submit s (replicate (Suc n) (TimerFired 0)) = s\<lparr>timers := [], isPlaying := False\<rparr>"
      by (simp add: run_Cons run_timers_idle)
    with Nil show ?thesis by simp
  next
    case (Cons c r)
    show ?thesis
    proof (cases "submit c")
      case None
      let ?s1 = "s\<lparr>timers := [length c], queue := r, started := started s @ [c]\<rparr>"
      from Suc.prems(2) Cons None have "step submit s (TimerFired 0) = ?s1"
        by (rule step_timer_accept)
      then have r: "run submit s (replicate (Suc n) (TimerFired 0))
                    = run submit ?s1 (replicate n (TimerFired 0))"
        by (simp add: run_Cons)
      have "isPlaying ?s1" "timers ?s1 = [length c]" "length (queue ?s1) \<le> n"
        using Cons Suc.prems by simp_all
      from Suc.IH [OF this] show ?thesis
        using Cons None r by simp
    next
      case (Some e)
      let ?s1 = "s\<lparr>timers := [], queue := r\<rparr>"
      from Suc.prems(2) Cons Some have "step submit s (TimerFired 0) = ?s1"
        by (rule step_timer_reject)
      then have r: "run submit s (replicate (Suc n) (TimerFired 0))
                    = run submit ?s1 (replicate n (TimerFired 0))"
        by (simp add: run_Cons)
      have "isPlaying ?s1" "timers ?s1 = []"
        using Suc.prems by simp_all
      from run_stuck [OF this, of submit "replicate n (TimerFired 0)"] show ?thesis
        using Cons Some r by simp
    qed
  qed
qed

lemma step_idle_arrival:
  assumes "audioCtx s \<noteq> None" and "\<not> isPlaying s" and "timers s = []" and "queue s = []"
  shows "fragments [e] = [] \<longrightarrow> step submit s e = s"
    and "fragments [e] = [c] \<longrightarrow> submit c = None \<longrightarrow>
          step submit s e = s\<lparr>queue := [], isPlaying := True, started := started s @ [c],
             timers := [length c]\<rparr>"
    and "fragments [e] = [c] \<longrightarrow> submit c \<noteq> None \<longrightarrow>
          step submit s e = s\<lparr>queue := [], isPlaying := True\<rparr>"
  using assms
  by (cases e; auto simp: audioChunk_def playNextChunk_def drain_def split: sum.splits if_splits)+

lemma fragments_single: "fragments [e] = [] \<or> (\<exists>c. fragments [e] = [c])"
  by (cases e) (auto split: sum.splits)

lemma step_shape:
  assumes ctx: "audioCtx s \<noteq> None"
    and acc: "\<forall>c \<in> set (started s). submit c = None"
    and inv: "(F = started s @ queue s
                \<and> ((isPlaying s \<and> (\<exists>d. timers s = [d]))
                   \<or> (\<not> isPlaying s \<and> timers s = [] \<and> queue s = [])))
            \<or> (isPlaying s \<and> timers s = []
                \<and> (\<exists>r. submit r \<noteq> None \<and> F = started s @ r # queue s))"
  shows "audioCtx (step submit s e) \<noteq> None
       \<and> (\<forall>c \<in> set (started (step submit s e)). submit c = None)
       \<and> ((F @ fragments [e] = started (step submit s e) @ queue (step submit s e)
              \<and> ((isPlaying (step submit s e) \<and> (\<exists>d. timers (step submit s e) = [d]))
                 \<or> (\<not> isPlaying (step submit s e) \<and> timers (step submit s e) = []
                      \<and> queue (step submit s e) = [])))
          \<or> (isPlaying (step submit s e) \<and> timers (step submit s e) = []
              \<and> (\<exists>r. submit r \<noteq> None
                     \<and> F @ fragments [e] = started (step submit s e) @ r # queue (step submit s e))))"
proof -
  from inv consider
    (wedged) r where "isPlaying s" "timers s = []" "submit r \<noteq> None" "F = started s @ r # queue s"
    | (playing) d where "F = started s @ queue s" "isPlaying s" "timers s = [d]"
    | (idle) "F = started s @ queue s" "\<not> isPlaying s" "timers s = []" "queue s = []"
    by blast
  then show ?thesis
  proof cases
    case wedged
    from wedged(1,2) have "step submit s e = s\<lparr>queue := queue s @ fragments [e]\<rparr>"
      by (rule step_stuck)
    with ctx acc wedged show ?thesis by auto
  next
    case playing
    show ?thesis
    proof (cases "\<exists>i. e = TimerFired i")
      case False
      with playing(2) have "step submit s e = s\<lparr>queue := queue s @ fragments [e]\<rparr>"
        by (simp add: step_playing)
      with ctx acc playing show ?thesis by simp
    next
      case True
      then obtain i where e: "e = TimerFired i" ..
      show ?thesis
      proof (cases i)
        case (Suc j)
        with e playing(3) have "step submit s e = s" by simp
        with ctx acc playing e show ?thesis by simp
      next
        case 0
        show ?thesis
        proof (cases "queue s")
          case Nil
          from step_timer_empty [OF playing(3) Nil, of submit] ctx acc playing(1) Nil e 0
          show ?thesis by simp
        next
          case (Cons c r)
          show ?thesis
          proof (cases "submit c")
            case None
            from step_timer_accept [of s d c r submit, OF playing(3) Cons None]
              ctx acc playing(1,2) Cons None e 0
            show ?thesis by simp
          next
            case (Some err)
            from step_timer_reject [of s d c r submit, OF playing(3) Cons Some]
            have "step submit s e = s\<lparr>timers := [], queue := r\<rparr>"
              by (simp add: e 0)
            moreover have "submit c \<noteq> None" using Some by simp
            ultimately show ?thesis
              using ctx acc playing(1,2) Cons e by auto
          qed
        qed
      qed
    qed
  next
    case idle
    from fragments_single [of e] show ?thesis
    proof
      assume f: "fragments [e] = []"
      with step_idle_arrival(1) [OF ctx idle(2,3,4), of e submit]
      have "step submit s e = s" by simp
      with ctx acc idle f show ?thesis by simp
    next
      assume "\<exists>c. fragments [e] = [c]"
      then obtain c where f: "fragments [e] = [c]" ..
      show ?thesis
      proof (cases "submit c")
        case None
        with step_idle_arrival(2) [OF ctx idle(2,3,4), of e c submit] f
        have "step submit s e = s\<lparr>queue := [], isPlaying := True, started := started s @ [c],
             timers := [length c]\<rparr>" by simp
        with ctx acc idle f None show ?thesis by simp
      next
        case (Some err)
        with step_idle_arrival(3) [OF ctx idle(2,3,4), of e c submit] f
        have "step submit s e = s\<lparr>queue := [], isPlaying := True\<rparr>" by simp
        moreover have "submit c \<noteq> None" using Some by simp
        ultimately show ?thesis
          using ctx acc idle f by auto
      qed
    qed
  qed
qed

lemma run_shape:
  "audioCtx (run submit (mount initial) evs) \<noteq> None
   \<and> (\<forall>c \<in> set (started (run submit (mount initial) evs)). submit c = None)
   \<and> ((fragments evs = started (run submit (mount initial) evs) @ queue (run submit (mount initial) evs)
          \<and> ((isPlaying (run submit (mount initial) evs)
                \<and> (\<exists>d. timers (run submit (mount initial) evs) = [d]))
             \<or> (\<not> isPlaying (run submit (mount initial) evs)
                  \<and> timers (run submit (mount initial) evs) = []
                  \<and> queue (run submit (mount initial) evs) = [])))
      \<or> (isPlaying (run submit (mount initial) evs) \<and> timers (run submit (mount initial) evs) = []
          \<and> (\<exists>r. submit r \<noteq> None
                 \<and> fragments evs = started (run submit (mount initial) evs) @ r
                      # queue (run submit (mount initial) evs))))"
proof (induction evs rule: rev_induct)
  case Nil
  show ?case by (simp add: run_Nil mount_def initial_def)
next
  case (snoc e evs)
  then have a: "audioCtx (run submit (mount initial) evs) \<noteq> None"
    and b: "\<forall>c \<in> set (started (run submit (mount initial) evs)). submit c = None"
    and c: "(fragments evs = started (run submit (mount initial) evs) @ queue (run submit (mount initial) evs)
          \<and> ((isPlaying (run submit (mount initial) evs)
                \<and> (\<exists>d. timers (run submit (mount initial) evs) = [d]))
             \<or> (\<not> isPlaying (run submit (mount initial) evs)
                  \<and> timers (run submit (mount initial) evs) = []
                  \<and> queue (run submit (mount initial) evs) = [])))
      \<or> (isPlaying (run submit (mount initial) evs) \<and> timers (run submit (mount initial) evs) = []
          \<and> (\<exists>r. submit r \<noteq> None
                 \<and> fragments evs = started (run submit (mount initial) evs) @ r
                      # queue (run submit (mount initial) evs)))"
    by blast+
  from step_shape [OF a b c, of e] show ?case
    unfolding run_snoc fragments_append .
qed

lemma run_upto:
  assumes "length (queue (run submit (mount initial) evs)) \<le> n"
  shows "started (run submit (run submit (mount initial) evs) (replicate n (TimerFired 0)))
         = takeWhile (\<lambda>c. submit c = None) (fragments evs)"
    and "\<exists>rest. takeWhile (\<lambda>c. submit c = None) (fragments evs)
                = started (run submit (mount initial) evs) @ rest"
proof -
  let ?s = "run submit (mount initial) evs"
  let ?P = "\<lambda>c. submit c = None"
  from run_shape [of submit evs] have acc: "\<forall>c \<in> set (started ?s). ?P c" by blast
  from run_shape [of submit evs] consider
    (wedged) r where "isPlaying ?s" "timers ?s = []" "submit r \<noteq> None"
      "fragments evs = started ?s @ r # queue ?s"
    | (playing) d where "fragments evs = started ?s @ queue ?s" "isPlaying ?s" "timers ?s = [d]"
    | (idle) "fragments evs = started ?s @ queue ?s" "timers ?s = []" "queue ?s = []"
    by blast
  then have "started (run submit ?s (replicate n (TimerFired 0))) = takeWhile ?P (fragments evs)
     \<and> (\<exists>rest. takeWhile ?P (fragments evs) = started ?s @ rest)"
  proof cases
    case wedged
    from acc wedged(3,4) have "takeWhile ?P (fragments evs) = started ?s"
      by (simp add: takeWhile_append2)
    moreover from run_stuck [OF wedged(1,2), of submit "replicate n (TimerFired 0)"]
    have "started (run submit ?s (replicate n (TimerFired 0))) = started ?s" by simp
    ultimately show ?thesis by simp
  next
    case playing
    from acc playing(1) have "takeWhile ?P (fragments evs) = started ?s @ takeWhile ?P (queue ?s)"
      by (simp add: takeWhile_append2)
    moreover from drain_upto [OF playing(2,3) assms]
    have "started (run submit ?s (replicate n (TimerFired 0))) = started ?s @ takeWhile ?P (queue ?s)" .
    ultimately show ?thesis by simp
  next
    case idle
    from acc idle(1,3) have "takeWhile ?P (fragments evs) = started ?s"
      by (simp add: takeWhile_append2)
    moreover from idle(2) have "run submit ?s (replicate n (TimerFired 0)) = ?s"
      by (rule run_timers_idle)
    ultimately show ?thesis by simp
  qed
  then show "started (run submit ?s (replicate n (TimerFired 0))) = takeWhile ?P (fragments evs)"
    and "\<exists>rest. takeWhile ?P (fragments evs) = started ?s @ rest"
    by blast+
qed






section \<open>The claims about the scheduler\<close>

lemmas player_eval =
  run_def audioChunk_def playNextChunk_def drain_def webaudio_def initial_def mount_def
  SAMPLE_RATE_def decode_eval

text \<open>
  Claim C1. Each entry of \<open>timers\<close> is one suspended drain loop, and a loop that is
  running is the step being taken, so the loops alive between two steps are the entries
  of \<open>timers\<close>. After any sequence of fragment arrivals, wake calls, timer expiries and
  teardowns, on any device and with or without an audio context, there is at most one
  such loop, and while there is one \<open>isPlaying\<close> is true. A call of
  \<open>playNextChunk\<close> that finds \<open>isPlaying\<close> true returns the state as it found it. A
  call that passes both guards has set the flag when it gives control back: the test and
  the assignment are in the same step, so no other call runs between them.
\<close>

theorem single_flight:
  "length (timers (run submit (initial\<lparr>audioCtx := ctx\<rparr>) evs)) \<le> 1
   \<and> (timers (run submit (initial\<lparr>audioCtx := ctx\<rparr>) evs) \<noteq> []
        \<longrightarrow> isPlaying (run submit (initial\<lparr>audioCtx := ctx\<rparr>) evs))
   \<and> (isPlaying s \<longrightarrow> playNextChunk submit s = (s, Fulfilled))
   \<and> (\<not> isPlaying s \<and> audioCtx s \<noteq> None \<and> queue s \<noteq> []
        \<longrightarrow> isPlaying (fst (playNextChunk submit s)))"
proof -
  have "length (timers (initial\<lparr>audioCtx := ctx\<rparr>)) \<le> 1"
    and "timers (initial\<lparr>audioCtx := ctx\<rparr>) \<noteq> [] \<longrightarrow> isPlaying (initial\<lparr>audioCtx := ctx\<rparr>)"
    by (simp_all add: initial_def)
  from run_single [OF this, of submit evs]
  have a: "length (timers (run submit (initial\<lparr>audioCtx := ctx\<rparr>) evs)) \<le> 1
     \<and> (timers (run submit (initial\<lparr>audioCtx := ctx\<rparr>) evs) \<noteq> []
        \<longrightarrow> isPlaying (run submit (initial\<lparr>audioCtx := ctx\<rparr>) evs))" .
  have b: "isPlaying s \<longrightarrow> playNextChunk submit s = (s, Fulfilled)"
    by (simp add: playNextChunk_playing)
  have c: "\<not> isPlaying s \<and> audioCtx s \<noteq> None \<and> queue s \<noteq> []
        \<longrightarrow> isPlaying (fst (playNextChunk submit s))"
    by (auto simp: playNextChunk_def drain_def split: list.split option.split)
  from a b c show ?thesis by blast
qed

text \<open>
  Two arrivals and a wake call on the Web Audio device leave one loop suspended; a call
  in a playing state, and a call that passes both guards.
\<close>

theorem single_flight_witness:
  "timers (run webaudio (initial\<lparr>audioCtx := Some SAMPLE_RATE\<rparr>)
      [AudioChunk ''AAA='' ''pcm16'', AudioChunk ''AID/fwAA'' ''pcm16'', Wake]) = [1]
   \<and> isPlaying (run webaudio (initial\<lparr>audioCtx := Some SAMPLE_RATE\<rparr>)
      [AudioChunk ''AAA='' ''pcm16'', AudioChunk ''AID/fwAA'' ''pcm16'', Wake])
   \<and> playNextChunk webaudio
        \<lparr>audioCtx = Some 24000, queue = [[0]], isPlaying = True, timers = [1], started = []\<rparr>
      = (\<lparr>audioCtx = Some 24000, queue = [[0]], isPlaying = True, timers = [1], started = []\<rparr>,
         Fulfilled)
   \<and> isPlaying (fst (playNextChunk webaudio
        \<lparr>audioCtx = Some 24000, queue = [[0]], isPlaying = False, timers = [], started = []\<rparr>))"
proof -
  let ?evs = "[AudioChunk ''AAA='' ''pcm16'', AudioChunk ''AID/fwAA'' ''pcm16'', Wake]"
  let ?s1 = "\<lparr>audioCtx = Some 24000, queue = [[0]], isPlaying = True, timers = [1], started = []\<rparr>"
  let ?s2 = "\<lparr>audioCtx = Some 24000, queue = [[0]], isPlaying = False, timers = [], started = []\<rparr>"
  have t: "timers (run webaudio (initial\<lparr>audioCtx := Some SAMPLE_RATE\<rparr>) ?evs) = [1]"
    by (simp add: player_eval)
  have p1: "isPlaying ?s1" by simp
  have p2: "\<not> isPlaying ?s2 \<and> audioCtx ?s2 \<noteq> None \<and> queue ?s2 \<noteq> []" by simp
  from single_flight [of webaudio "Some SAMPLE_RATE" ?evs ?s1] t p1
  have "isPlaying (run webaudio (initial\<lparr>audioCtx := Some SAMPLE_RATE\<rparr>) ?evs)"
    and "playNextChunk webaudio ?s1 = (?s1, Fulfilled)"
    by simp_all
  moreover from single_flight [of webaudio "Some SAMPLE_RATE" ?evs ?s2] p2
  have "isPlaying (fst (playNextChunk webaudio ?s2))" by blast
  ultimately show ?thesis using t by simp
qed

text \<open>
  Claim C2 says that every fragment enqueued is submitted, in order. Take the Web Audio
  device and an empty payload, which decodes to a \<open>Float32Array\<close> of length 0, between
  two other fragments. The first fragment is started; on the timer expiry the loop takes
  the empty fragment, \<open>createBuffer\<close> raises and the loop is gone with \<open>isPlaying\<close>
  left true. The third fragment is never taken from the queue, whatever timer expiries
  and wake calls follow.
\<close>

theorem fifo_stops_at_refusal:
  "fragments [AudioChunk ''//8='' ''pcm16'', AudioChunk '''' ''pcm16'', AudioChunk ''AAA='' ''pcm16'']
     = [[- 1 / 32768], [], [0]]
   \<and> run webaudio (mount initial)
        [AudioChunk ''//8='' ''pcm16'', AudioChunk '''' ''pcm16'', AudioChunk ''AAA='' ''pcm16'',
         TimerFired 0, TimerFired 0, Wake, TimerFired 0]
     = \<lparr>audioCtx = Some 24000, queue = [[0]], isPlaying = True, timers = [],
        started = [[- 1 / 32768]]\<rparr>"
  by (simp add: player_eval)

text \<open>
  Claim C2, as amended. Start from the mounted component and take any sequence of
  events: arrivals (valid or not), wake calls, timer expiries and teardowns in any order,
  on any device. The fragments appended so far split into those already taken from the
  front of the queue and those still queued, in arrival order, and the buffers started
  are the taken ones that the device accepted, in the same order: nothing is reordered
  or started twice. At every moment the buffers started are an initial part of the
  fragments that come before the first one the device refuses, and once the timer has
  expired as many times as there are fragments still queued they are exactly those
  fragments, in arrival order. So all the fragments are started when the device refuses
  none of them, and none at or after the first refused one.
\<close>

theorem fifo_order:
  "(\<exists>pre. fragments evs = pre @ queue (run submit (mount initial) evs)
       \<and> started (run submit (mount initial) evs) = filter (\<lambda>c. submit c = None) pre)
   \<and> (\<exists>rest. takeWhile (\<lambda>c. submit c = None) (fragments evs)
               = started (run submit (mount initial) evs) @ rest)
   \<and> (\<forall>n \<ge> length (queue (run submit (mount initial) evs)).
         started (run submit (run submit (mount initial) evs) (replicate n (TimerFired 0)))
         = takeWhile (\<lambda>c. submit c = None) (fragments evs))
   \<and> ((\<forall>c \<in> set (fragments evs). submit c = None) \<longrightarrow>
        (\<forall>n \<ge> length (queue (run submit (mount initial) evs)).
           started (run submit (run submit (mount initial) evs) (replicate n (TimerFired 0)))
           = fragments evs))"
proof -
  let ?s = "run submit (mount initial) evs"
  let ?P = "\<lambda>c. submit c = None"
  from run_fifo [of "mount initial" evs submit]
  have a: "\<exists>pre. fragments evs = pre @ queue ?s \<and> started ?s = filter ?P pre"
    by (auto simp: mount_def initial_def)
  have b: "\<exists>rest. takeWhile ?P (fragments evs) = started ?s @ rest"
    by (rule run_upto(2) [of submit evs "length (queue ?s)"]) simp
  have c: "\<forall>n \<ge> length (queue ?s).
      started (run submit ?s (replicate n (TimerFired 0))) = takeWhile ?P (fragments evs)"
    using run_upto(1) [of submit evs] by blast
  have d: "(\<forall>c \<in> set (fragments evs). ?P c) \<longrightarrow>
      (\<forall>n \<ge> length (queue ?s). started (run submit ?s (replicate n (TimerFired 0))) = fragments evs)"
  proof
    assume "\<forall>c \<in> set (fragments evs). ?P c"
    then have "takeWhile ?P (fragments evs) = fragments evs"
      by (simp add: takeWhile_eq_all_conv)
    with c show "\<forall>n \<ge> length (queue ?s).
        started (run submit ?s (replicate n (TimerFired 0))) = fragments evs"
      by simp
  qed
  from a b c d show ?thesis by blast
qed

text \<open>
  Three fragments that the device accepts, the third arriving after the first timer
  expiry: all three are started. Four fragments of which the third is empty: the two
  before it are started and no more.
\<close>

theorem fifo_order_witness:
  "list_all (\<lambda>c. webaudio c = None)
      (fragments [AudioChunk ''AAA='' ''pcm16'', AudioChunk ''AID/fwAA'' ''pcm16'',
        TimerFired 0, AudioChunk ''//8='' ''pcm16''])
   \<and> length (queue (run webaudio (mount initial)
        [AudioChunk ''AAA='' ''pcm16'', AudioChunk ''AID/fwAA'' ''pcm16'',
         TimerFired 0, AudioChunk ''//8='' ''pcm16''])) \<le> 1
   \<and> started (run webaudio (run webaudio (mount initial)
        [AudioChunk ''AAA='' ''pcm16'', AudioChunk ''AID/fwAA'' ''pcm16'',
         TimerFired 0, AudioChunk ''//8='' ''pcm16'']) (replicate 1 (TimerFired 0)))
     = [[0], [- 1, 32767 / 32768, 0], [- 1 / 32768]]
   \<and> length (queue (run webaudio (mount initial)
        [AudioChunk ''AID/fwAA'' ''pcm16'', AudioChunk ''AAA='' ''pcm16'',
         AudioChunk '''' ''pcm16'', AudioChunk ''//8='' ''pcm16''])) \<le> 3
   \<and> started (run webaudio (run webaudio (mount initial)
        [AudioChunk ''AID/fwAA'' ''pcm16'', AudioChunk ''AAA='' ''pcm16'',
         AudioChunk '''' ''pcm16'', AudioChunk ''//8='' ''pcm16'']) (replicate 3 (TimerFired 0)))
     = [[- 1, 32767 / 32768, 0], [0]]"
proof -
  let ?evs = "[AudioChunk ''AAA='' ''pcm16'', AudioChunk ''AID/fwAA'' ''pcm16'',
         TimerFired 0, AudioChunk ''//8='' ''pcm16'']"
  let ?evs2 = "[AudioChunk ''AID/fwAA'' ''pcm16'', AudioChunk ''AAA='' ''pcm16'',
         AudioChunk '''' ''pcm16'', AudioChunk ''//8='' ''pcm16'']"
  have f: "fragments ?evs = [[0], [- 1, 32767 / 32768, 0], [- 1 / 32768]]"
    by (simp add: decode_eval)
  have acc: "\<forall>c \<in> set (fragments ?evs). webaudio c = None"
    unfolding f by (simp add: webaudio_def)
  have q: "length (queue (run webaudio (mount initial) ?evs)) \<le> 1"
    by (simp add: player_eval)
  from fifo_order [of ?evs webaudio] acc q
  have "started (run webaudio (run webaudio (mount initial) ?evs) (replicate 1 (TimerFired 0)))
        = fragments ?evs"
    by blast
  from this f
  have r1: "started (run webaudio (run webaudio (mount initial) ?evs) (replicate 1 (TimerFired 0)))
        = [[0], [- 1, 32767 / 32768, 0], [- 1 / 32768]]"
    by (rule trans)
  have f2: "fragments ?evs2 = [[- 1, 32767 / 32768, 0], [0], [], [- 1 / 32768]]"
    by (simp add: decode_eval)
  have t2: "takeWhile (\<lambda>c. webaudio c = None) (fragments ?evs2) = [[- 1, 32767 / 32768, 0], [0]]"
    unfolding f2 by (simp add: webaudio_def)
  have q2: "length (queue (run webaudio (mount initial) ?evs2)) \<le> 3"
    by (simp add: player_eval)
  from fifo_order [of ?evs2 webaudio] q2
  have "started (run webaudio (run webaudio (mount initial) ?evs2) (replicate 3 (TimerFired 0)))
        = takeWhile (\<lambda>c. webaudio c = None) (fragments ?evs2)"
    by blast
  from this t2
  have r2: "started (run webaudio (run webaudio (mount initial) ?evs2) (replicate 3 (TimerFired 0)))
        = [[- 1, 32767 / 32768, 0], [0]]"
    by (rule trans)
  from acc q r1 q2 r2 show ?thesis unfolding list_all_iff by blast
qed






text \<open>
  Claim C9. For a format tag other than \<open>pcm16\<close> the handler returns normally with
  the state unchanged, whatever the payload is: the payload is not decoded (a malformed
  one raises nothing), nothing is appended to the queue, and \<open>playNextChunk\<close> is not
  called.
\<close>

theorem format_filter:
  assumes "format \<noteq> ''pcm16''"
  shows "audioChunk submit s (audio, format) = Inr s
       \<and> step submit s (AudioChunk audio format) = s
       \<and> fragments [AudioChunk audio format] = []"
  using assms by (simp add: audioChunk_def)

text \<open>
  The tag \<open>mp3\<close>, in a state where a call of \<open>playNextChunk\<close> would have started
  playback, and with a payload that \<open>atob\<close> would have refused.
\<close>

theorem format_filter_witness:
  "''mp3'' \<noteq> ''pcm16''
   \<and> audioChunk webaudio (mount initial\<lparr>queue := [[0]]\<rparr>) (''!'', ''mp3'')
       = Inr (mount initial\<lparr>queue := [[0]]\<rparr>)
   \<and> step webaudio (mount initial\<lparr>queue := [[0]]\<rparr>) (AudioChunk ''AAA='' ''mp3'')
       = mount initial\<lparr>queue := [[0]]\<rparr>
   \<and> fst (playNextChunk webaudio (mount initial\<lparr>queue := [[0]]\<rparr>))
       \<noteq> mount initial\<lparr>queue := [[0]]\<rparr>"
proof -
  have n: "''mp3'' \<noteq> ''pcm16''" by simp
  have w: "fst (playNextChunk webaudio (mount initial\<lparr>queue := [[0]]\<rparr>))
       \<noteq> mount initial\<lparr>queue := [[0]]\<rparr>"
    by (simp add: player_eval)
  from format_filter [OF n, of webaudio "mount initial\<lparr>queue := [[0]]\<rparr>" "''!''"]
    format_filter [OF n, of webaudio "mount initial\<lparr>queue := [[0]]\<rparr>" "''AAA=''"] n w
  show ?thesis by blast
qed

text \<open>
  Claim C10. A call of \<open>playNextChunk\<close> made while there is no audio context, or
  while the queue is empty, returns at once with the state unchanged, queue and flag
  included. A call can only turn \<open>isPlaying\<close> from false to true when the context
  exists and the queue is not empty.
\<close>

theorem wake_guard:
  "(audioCtx s = None \<or> queue s = [] \<longrightarrow> playNextChunk submit s = (s, Fulfilled))
   \<and> (\<not> isPlaying s \<and> isPlaying (fst (playNextChunk submit s))
        \<longrightarrow> audioCtx s \<noteq> None \<and> queue s \<noteq> [])"
  by (auto simp: playNextChunk_def)

text \<open>
  Before mounting with a fragment queued, after mounting with an empty queue, and after
  mounting with a fragment queued, where the flag is set.
\<close>

theorem wake_guard_witness:
  "playNextChunk webaudio (initial\<lparr>queue := [[0]]\<rparr>) = (initial\<lparr>queue := [[0]]\<rparr>, Fulfilled)
   \<and> playNextChunk webaudio (mount initial) = (mount initial, Fulfilled)
   \<and> \<not> isPlaying (mount initial\<lparr>queue := [[0]]\<rparr>)
   \<and> isPlaying (fst (playNextChunk webaudio (mount initial\<lparr>queue := [[0]]\<rparr>)))
   \<and> audioCtx (mount initial\<lparr>queue := [[0]]\<rparr>) \<noteq> None"
proof -
  have a: "audioCtx (initial\<lparr>queue := [[0]]\<rparr>) = None \<or> queue (initial\<lparr>queue := [[0]]\<rparr>) = []"
    by (simp add: initial_def)
  have b: "audioCtx (mount initial) = None \<or> queue (mount initial) = []"
    by (simp add: initial_def mount_def)
  have c: "\<not> isPlaying (mount initial\<lparr>queue := [[0]]\<rparr>)
     \<and> isPlaying (fst (playNextChunk webaudio (mount initial\<lparr>queue := [[0]]\<rparr>)))"
    by (simp add: player_eval)
  from wake_guard [of "initial\<lparr>queue := [[0]]\<rparr>" webaudio] a
    wake_guard [of "mount initial" webaudio] b
    wake_guard [of "mount initial\<lparr>queue := [[0]]\<rparr>" webaudio] c
  show ?thesis by blast
qed

text \<open>
  Claim C6 says that after a refused submission the loop goes on to the next queued
  fragment and that \<open>isPlaying\<close> is false when the loop has ended. Take the Web Audio
  device and an empty payload, which decodes to a \<open>Float32Array\<close> of length 0, between
  two other fragments. The first fragment is started; on the timer expiry the loop takes
  the empty fragment, \<open>createBuffer\<close> raises and the loop is gone. The third fragment
  stays in the queue, \<open>isPlaying\<close> stays true, no timer is pending, and later timer
  expiries and wake calls change nothing.
\<close>

theorem device_rejection_wedges:
  "run webaudio (mount initial)
     [AudioChunk ''AAA='' ''pcm16'', AudioChunk '''' ''pcm16'', AudioChunk ''AID/fwAA'' ''pcm16'',
      TimerFired 0, TimerFired 0, Wake]
   = \<lparr>audioCtx = Some 24000, queue = [[- 1, 32767 / 32768, 0]], isPlaying = True,
      timers = [], started = [[0]]\<rparr>"
  by (simp add: player_eval)

text \<open>
  Claim C6, as amended. \<open>drain\<close> runs with \<open>isPlaying\<close> set and with no other timer
  pending, both when \<open>playNextChunk\<close> enters the loop and when the loop's timer has
  expired. If the device refuses the fragment at the front of the queue, that fragment is
  removed from the queue and not started, the promise of \<open>playNextChunk\<close> is rejected
  with the device's error, and the loop has ended without reaching line 44:
  \<open>isPlaying\<close> is left true. From then on every event leaves \<open>isPlaying\<close> true, no
  timer pending and the started buffers as they were; arrivals only lengthen the queue.
\<close>

theorem device_rejection:
  assumes "isPlaying s" and "timers s = []" and "queue s = chunk # rest"
    and "submit chunk = Some e"
  shows "drain submit s = (s\<lparr>queue := rest\<rparr>, Rejected e)
       \<and> run submit (fst (drain submit s)) evs = s\<lparr>queue := rest @ fragments evs\<rparr>"
proof -
  from assms(3,4) have d: "drain submit s = (s\<lparr>queue := rest\<rparr>, Rejected e)"
    by (rule drain_reject)
  from assms(1,2) have "isPlaying (s\<lparr>queue := rest\<rparr>)" "timers (s\<lparr>queue := rest\<rparr>) = []"
    by simp_all
  from run_stuck [OF this, of submit evs] d show ?thesis by simp
qed

text \<open>
  The Web Audio device and an empty fragment at the front of the queue.
\<close>

theorem device_rejection_witness:
  "webaudio [] = Some NotSupportedError
   \<and> drain webaudio
        \<lparr>audioCtx = Some 24000, queue = [[], [0]], isPlaying = True, timers = [], started = [[0]]\<rparr>
      = (\<lparr>audioCtx = Some 24000, queue = [[0]], isPlaying = True, timers = [], started = [[0]]\<rparr>,
         Rejected NotSupportedError)
   \<and> run webaudio (fst (drain webaudio
        \<lparr>audioCtx = Some 24000, queue = [[], [0]], isPlaying = True, timers = [], started = [[0]]\<rparr>))
        [Wake, AudioChunk ''AID/fwAA'' ''pcm16'', TimerFired 0]
      = \<lparr>audioCtx = Some 24000, queue = [[0], [- 1, 32767 / 32768, 0]], isPlaying = True,
         timers = [], started = [[0]]\<rparr>"
proof -
  let ?s = "\<lparr>audioCtx = Some 24000, queue = [[], [0]], isPlaying = True, timers = [],
    started = [[0 :: real]]\<rparr>"
  let ?evs = "[Wake, AudioChunk ''AID/fwAA'' ''pcm16'', TimerFired 0]"
  have h: "isPlaying ?s" "timers ?s = []" "queue ?s = [] # [[0]]"
    "webaudio [] = Some NotSupportedError"
    by (simp_all add: webaudio_def)
  have f: "fragments ?evs = [[- 1, 32767 / 32768, 0]]"
    by (simp add: decode_eval)
  from device_rejection [where submit = webaudio and evs = ?evs, OF h]
  have "drain webaudio ?s = (?s\<lparr>queue := [[0]]\<rparr>, Rejected NotSupportedError)"
    and "run webaudio (fst (drain webaudio ?s)) ?evs = ?s\<lparr>queue := [[0]] @ fragments ?evs\<rparr>"
    by blast+
  then show ?thesis
    unfolding f using h(4) by simp
qed

text \<open>
  Claim C7 says that every fragment appended while a drain is in flight is processed
  by that loop. On the Web Audio device, after a fragment and an empty fragment have
  arrived, the first is playing, the empty one is queued and the loop is suspended. A
  fragment appended now is never processed: at the timer expiry the loop takes the empty
  fragment, \<open>createBuffer\<close> raises, and the loop is gone with the appended fragment
  still queued and \<open>isPlaying\<close> still true.
\<close>

theorem append_during_drain_lost:
  "run webaudio (mount initial) [AudioChunk ''AAA='' ''pcm16'', AudioChunk '''' ''pcm16'']
     = \<lparr>audioCtx = Some 24000, queue = [[]], isPlaying = True, timers = [1], started = [[0]]\<rparr>
   \<and> run webaudio
        \<lparr>audioCtx = Some 24000, queue = [[]], isPlaying = True, timers = [1], started = [[0]]\<rparr>
        [AudioChunk ''//8='' ''pcm16'', TimerFired 0, TimerFired 0, TimerFired 0]
     = \<lparr>audioCtx = Some 24000, queue = [[- 1 / 32768]], isPlaying = True, timers = [],
        started = [[0]]\<rparr>"
  by (simp add: player_eval)

text \<open>
  Claim C7, as amended. Take a state with a drain in flight: \<open>isPlaying\<close> is true
  and one loop is suspended on its timer. Any number of wake calls leave the state
  unchanged. Arrivals and wake calls in any order only append the arriving fragments to
  the queue; the one pending timer is still the only one, so no second loop has started.
  The suspended loop, resumed by its timer alone, then starts what was queued and what
  arrived meanwhile, in order, up to the first fragment that the device refuses. When
  the device refuses none, it starts them all, finds the queue empty and clears the
  flag.
\<close>

theorem wake_while_draining:
  assumes "isPlaying s" and "timers s = [d]"
    and "\<forall>e \<in> set evs. \<forall>i. e \<noteq> TimerFired i"
    and "length (queue s @ fragments evs) < m"
  shows "run submit s (replicate n Wake) = s
       \<and> run submit s evs = s\<lparr>queue := queue s @ fragments evs\<rparr>
       \<and> started (run submit s (evs @ replicate m (TimerFired 0)))
           = started s @ takeWhile (\<lambda>c. submit c = None) (queue s @ fragments evs)
       \<and> ((\<forall>c \<in> set (queue s @ fragments evs). submit c = None) \<longrightarrow>
            started (run submit s (evs @ replicate m (TimerFired 0)))
              = started s @ queue s @ fragments evs
            \<and> queue (run submit s (evs @ replicate m (TimerFired 0))) = []
            \<and> \<not> isPlaying (run submit s (evs @ replicate m (TimerFired 0)))
            \<and> timers (run submit s (evs @ replicate m (TimerFired 0))) = [])"
proof -
  have "fragments (replicate n Wake) = []"
    by (induction n) simp_all
  moreover have "\<forall>e \<in> set (replicate n Wake). \<forall>i. e \<noteq> TimerFired i"
    by simp
  ultimately have w: "run submit s (replicate n Wake) = s"
    using run_playing [OF assms(1), of "replicate n Wake" submit] by simp
  let ?t = "s\<lparr>queue := queue s @ fragments evs\<rparr>"
  from assms(1,3) have a: "run submit s evs = ?t"
    by (rule run_playing)
  have t: "isPlaying ?t" "timers ?t = [d]" "length (queue ?t) \<le> m"
    using assms(1,2,4) by simp_all
  from drain_upto [OF t, of submit]
  have u: "started (run submit s (evs @ replicate m (TimerFired 0)))
           = started s @ takeWhile (\<lambda>c. submit c = None) (queue s @ fragments evs)"
    by (simp add: run_append a)
  have v: "(\<forall>c \<in> set (queue s @ fragments evs). submit c = None) \<longrightarrow>
            started (run submit s (evs @ replicate m (TimerFired 0)))
              = started s @ queue s @ fragments evs
            \<and> queue (run submit s (evs @ replicate m (TimerFired 0))) = []
            \<and> \<not> isPlaying (run submit s (evs @ replicate m (TimerFired 0)))
            \<and> timers (run submit s (evs @ replicate m (TimerFired 0))) = []"
  proof
    assume "\<forall>c \<in> set (queue s @ fragments evs). submit c = None"
    then have "\<forall>c \<in> set (queue ?t). submit c = None" by simp
    from drain_all [OF t(2) this t(3)] assms(4)
    show "started (run submit s (evs @ replicate m (TimerFired 0)))
              = started s @ queue s @ fragments evs
            \<and> queue (run submit s (evs @ replicate m (TimerFired 0))) = []
            \<and> \<not> isPlaying (run submit s (evs @ replicate m (TimerFired 0)))
            \<and> timers (run submit s (evs @ replicate m (TimerFired 0))) = []"
      by (simp add: run_append a)
  qed
  from w a u v show ?thesis by blast
qed

text \<open>
  One fragment queued behind the one playing; two more arrive, with a wake call between
  them, before the timer expires. Then the same with an empty fragment arriving first:
  the loop starts the queued fragment and stops at the empty one.
\<close>

theorem wake_while_draining_witness:
  "run webaudio
      \<lparr>audioCtx = Some 24000, queue = [[0]], isPlaying = True, timers = [1], started = [[0]]\<rparr>
      (replicate 5 Wake)
     = \<lparr>audioCtx = Some 24000, queue = [[0]], isPlaying = True, timers = [1], started = [[0]]\<rparr>
   \<and> run webaudio
      \<lparr>audioCtx = Some 24000, queue = [[0]], isPlaying = True, timers = [1], started = [[0]]\<rparr>
      [AudioChunk ''AID/fwAA'' ''pcm16'', Wake, AudioChunk ''//8='' ''pcm16'']
     = \<lparr>audioCtx = Some 24000, queue = [[0], [- 1, 32767 / 32768, 0], [- 1 / 32768]],
        isPlaying = True, timers = [1], started = [[0]]\<rparr>
   \<and> started (run webaudio
      \<lparr>audioCtx = Some 24000, queue = [[0]], isPlaying = True, timers = [1], started = [[0]]\<rparr>
      ([AudioChunk ''AID/fwAA'' ''pcm16'', Wake, AudioChunk ''//8='' ''pcm16'']
         @ replicate 4 (TimerFired 0)))
     = [[0], [0], [- 1, 32767 / 32768, 0], [- 1 / 32768]]
   \<and> \<not> isPlaying (run webaudio
      \<lparr>audioCtx = Some 24000, queue = [[0]], isPlaying = True, timers = [1], started = [[0]]\<rparr>
      ([AudioChunk ''AID/fwAA'' ''pcm16'', Wake, AudioChunk ''//8='' ''pcm16'']
         @ replicate 4 (TimerFired 0)))
   \<and> started (run webaudio
      \<lparr>audioCtx = Some 24000, queue = [[0]], isPlaying = True, timers = [1], started = [[0]]\<rparr>
      ([AudioChunk '''' ''pcm16'', Wake, AudioChunk ''//8='' ''pcm16'']
         @ replicate 4 (TimerFired 0)))
     = [[0], [0]]"
proof -
  let ?s = "\<lparr>audioCtx = Some 24000, queue = [[0 :: real]], isPlaying = True, timers = [1],
    started = [[0 :: real]]\<rparr>"
  let ?evs = "[AudioChunk ''AID/fwAA'' ''pcm16'', Wake, AudioChunk ''//8='' ''pcm16'']"
  let ?evs2 = "[AudioChunk '''' ''pcm16'', Wake, AudioChunk ''//8='' ''pcm16'']"
  have f: "fragments ?evs = [[- 1, 32767 / 32768, 0], [- 1 / 32768]]"
    by (simp add: decode_eval)
  have f2: "fragments ?evs2 = [[], [- 1 / 32768]]"
    by (simp add: decode_eval)
  have h: "isPlaying ?s" "timers ?s = [1]" "\<forall>e \<in> set ?evs. \<forall>i. e \<noteq> TimerFired i"
    by simp_all
  have h2: "\<forall>e \<in> set ?evs2. \<forall>i. e \<noteq> TimerFired i"
    by simp
  have acc: "\<forall>c \<in> set (queue ?s @ fragments ?evs). webaudio c = None"
    unfolding f by (simp add: webaudio_def)
  have len: "length (queue ?s @ fragments ?evs) < 4"
    unfolding f by simp
  have len2: "length (queue ?s @ fragments ?evs2) < 4"
    unfolding f2 by simp
  from wake_while_draining [where submit = webaudio and n = 5, OF h len] acc
  have "run webaudio ?s (replicate 5 Wake) = ?s"
    and "run webaudio ?s ?evs = ?s\<lparr>queue := queue ?s @ fragments ?evs\<rparr>"
    and "started (run webaudio ?s (?evs @ replicate 4 (TimerFired 0)))
           = started ?s @ queue ?s @ fragments ?evs"
    and "\<not> isPlaying (run webaudio ?s (?evs @ replicate 4 (TimerFired 0)))"
    by blast+
  moreover from wake_while_draining [where submit = webaudio and n = 5, OF h(1,2) h2 len2]
  have "started (run webaudio ?s (?evs2 @ replicate 4 (TimerFired 0)))
           = started ?s @ takeWhile (\<lambda>c. webaudio c = None) (queue ?s @ fragments ?evs2)"
    by blast
  ultimately show ?thesis
    unfolding f f2 by (simp add: webaudio_def)
qed

text \<open>
  Claim C8 says that a cancellation signal makes a draining loop leave before it
  processes further queued fragments. The only teardown of the component is the effect's
  cleanup, \<open>socket.disconnect()\<close>, and the loop tests nothing but the queue length. With
  one fragment playing and a second queued at teardown, the next timer expiry starts the
  second fragment.
\<close>

theorem teardown_does_not_cancel:
  "isPlaying (run webaudio (mount initial)
      [AudioChunk ''AAA='' ''pcm16'', AudioChunk ''AID/fwAA'' ''pcm16''])
   \<and> queue (run webaudio (mount initial)
      [AudioChunk ''AAA='' ''pcm16'', AudioChunk ''AID/fwAA'' ''pcm16''])
     = [[- 1, 32767 / 32768, 0]]
   \<and> started (run webaudio (mount initial)
      [AudioChunk ''AAA='' ''pcm16'', AudioChunk ''AID/fwAA'' ''pcm16'', Teardown, TimerFired 0])
     = [[0], [- 1, 32767 / 32768, 0]]"
  by (simp add: player_eval)

text \<open>
  Claim C8, as amended. There is no cancellation signal: the teardown leaves the queue,
  the flag and the pending timer as they were, and the loop leaves normally exactly when
  it finds the queue empty. A loop that is suspended at teardown goes on to start the
  queued fragments in order, up to the first one that the device refuses: all of them,
  emptying the queue, when the device refuses none.
\<close>

theorem drain_after_teardown:
  assumes "isPlaying s" and "timers s = [d]" and "length (queue s) \<le> n"
  shows "step submit s Teardown = s
       \<and> (snd (drain submit s) = Fulfilled \<longleftrightarrow> queue s = [])
       \<and> started (run submit s (Teardown # replicate n (TimerFired 0)))
           = started s @ takeWhile (\<lambda>c. submit c = None) (queue s)
       \<and> ((\<forall>c \<in> set (queue s). submit c = None) \<longrightarrow>
            started (run submit s (Teardown # replicate n (TimerFired 0))) = started s @ queue s
            \<and> queue (run submit s (Teardown # replicate n (TimerFired 0))) = [])"
proof -
  have x: "snd (drain submit s) = Fulfilled \<longleftrightarrow> queue s = []"
    by (simp add: drain_def split: list.split option.split)
  from drain_upto [OF assms, of submit]
  have u: "started (run submit s (Teardown # replicate n (TimerFired 0)))
           = started s @ takeWhile (\<lambda>c. submit c = None) (queue s)"
    by (simp add: run_Cons)
  have v: "(\<forall>c \<in> set (queue s). submit c = None) \<longrightarrow>
            started (run submit s (Teardown # replicate n (TimerFired 0))) = started s @ queue s
            \<and> queue (run submit s (Teardown # replicate n (TimerFired 0))) = []"
  proof
    assume "\<forall>c \<in> set (queue s). submit c = None"
    from drain_all [OF assms(2) this assms(3)]
    show "started (run submit s (Teardown # replicate n (TimerFired 0))) = started s @ queue s
            \<and> queue (run submit s (Teardown # replicate n (TimerFired 0))) = []"
      by (simp add: run_Cons)
  qed
  from x u v show ?thesis by simp
qed

text \<open>
  Two fragments queued at teardown, both started afterwards; and three fragments of
  which the second is empty, where the loop stops after the first.
\<close>

theorem drain_after_teardown_witness:
  "started (run webaudio
      \<lparr>audioCtx = Some 24000, queue = [[0], [1 / 2]], isPlaying = True, timers = [1], started = []\<rparr>
      (Teardown # replicate 2 (TimerFired 0)))
     = [[0], [1 / 2]]
   \<and> queue (run webaudio
      \<lparr>audioCtx = Some 24000, queue = [[0], [1 / 2]], isPlaying = True, timers = [1], started = []\<rparr>
      (Teardown # replicate 2 (TimerFired 0)))
     = []
   \<and> snd (drain webaudio
      \<lparr>audioCtx = Some 24000, queue = [[0], [1 / 2]], isPlaying = True, timers = [1], started = []\<rparr>)
     \<noteq> Fulfilled
   \<and> started (run webaudio
      \<lparr>audioCtx = Some 24000, queue = [[0], [], [1 / 2]], isPlaying = True, timers = [1],
       started = []\<rparr>
      (Teardown # replicate 3 (TimerFired 0)))
     = [[0]]"
proof -
  let ?s = "\<lparr>audioCtx = Some 24000, queue = [[0 :: real], [1 / 2]], isPlaying = True,
    timers = [1], started = []\<rparr>"
  let ?s2 = "\<lparr>audioCtx = Some 24000, queue = [[0 :: real], [], [1 / 2]], isPlaying = True,
    timers = [1], started = []\<rparr>"
  have h: "isPlaying ?s" "timers ?s = [1]" "length (queue ?s) \<le> 2"
    by simp_all
  have acc: "\<forall>c \<in> set (queue ?s). webaudio c = None"
    by (simp add: webaudio_def)
  have h2: "isPlaying ?s2" "timers ?s2 = [1]" "length (queue ?s2) \<le> 3"
    by simp_all
  from drain_after_teardown [where submit = webaudio, OF h] acc
  have "started (run webaudio ?s (Teardown # replicate 2 (TimerFired 0))) = started ?s @ queue ?s"
    and "queue (run webaudio ?s (Teardown # replicate 2 (TimerFired 0))) = []"
    and "snd (drain webaudio ?s) = Fulfilled \<longleftrightarrow> queue ?s = []"
    by blast+
  moreover from drain_after_teardown [where submit = webaudio, OF h2]
  have "started (run webaudio ?s2 (Teardown # replicate 3 (TimerFired 0)))
        = started ?s2 @ takeWhile (\<lambda>c. webaudio c = None) (queue ?s2)"
    by blast
  ultimately show ?thesis by (simp add: webaudio_def)
qed

end
